theory Spec2Isabelle
  imports Main "HOL-Library.Word"
begin

unbundle bit_operations_syntax

section \<open>Product code generation (utils/productCodeGen.js)\<close>

text \<open>
  The function under study is
  \<^verbatim>\<open>
  export function generateProductCode(productName) {
    const lower = productName.toLowerCase();
    let maxLen = 0, substrings = [];
    for (let i = 0; i < lower.length; i++) {
      let j = i;
      while (j + 1 < lower.length && lower[j] < lower[j + 1]) j++;
      const len = j - i + 1;
      if (len > maxLen) { maxLen = len; substrings = [{ str: lower.slice(i, j + 1), start: i }]; }
      else if (len === maxLen) substrings.push({ str: lower.slice(i, j + 1), start: i });
      i = j;
    }
    const concat = substrings.map(s => s.str).join('');
    const first = substrings[0].start;
    const last = first + maxLen - 1;
    const hash = crypto.createHash('sha1').update(productName).digest('hex').slice(0, 8);
    return `${hash}-${first}${concat}${last}`;
  }
  \<close>
  A JavaScript string is a finite sequence of 16-bit code units; indexing, \<open>length\<close>,
  \<open>slice\<close> and the comparison of two one-unit strings all work on code units.
\<close>

subsection \<open>Strings\<close>

type_synonym unit16 = "16 word"
type_synonym jsstring = "unit16 list"
type_synonym byte = "8 word"
type_synonym word32 = "32 word"

text \<open>An Isabelle string literal (8-bit characters) read as a JavaScript string.\<close>

definition cu :: "char \<Rightarrow> unit16" where
  "cu c = of_nat (of_char c)"

definition js :: "string \<Rightarrow> jsstring" where
  "js cs = map cu cs"

text \<open>
  \<open>String.prototype.slice\<close> for non-negative integer arguments: both bounds are clamped
  to the length, and the result is empty when the clamped end is not after the start.
\<close>

definition slice_str :: "'a list \<Rightarrow> nat \<Rightarrow> nat \<Rightarrow> 'a list" where
  "slice_str s a b =
     (let from = min a (length s); to = min b (length s)
      in take (to - from) (drop from s))"

text \<open>
  \<open>String.prototype.toLowerCase\<close> is the locale-insensitive Unicode lower-casing. On a
  string of ASCII code units it maps \<open>A\<close>..\<open>Z\<close> to \<open>a\<close>..\<open>z\<close> and leaves every other
  unit alone. Outside ASCII the result is fixed by the Unicode character database (it may
  change the length and depends on context); that table is not part of the program, so the
  mapping of a string that has a non-ASCII unit is the parameter \<open>ucd\<close>.
\<close>

definition is_ascii :: "unit16 \<Rightarrow> bool" where
  "is_ascii c \<longleftrightarrow> c < 0x80"

definition ascii_lower :: "unit16 \<Rightarrow> unit16" where
  "ascii_lower c = (if 0x41 \<le> c \<and> c \<le> 0x5A then c + 0x20 else c)"

definition toLowerCase :: "(jsstring \<Rightarrow> jsstring) \<Rightarrow> jsstring \<Rightarrow> jsstring" where
  "toLowerCase ucd s = (if list_all is_ascii s then map ascii_lower s else ucd s)"

text \<open>
  Unicode lower-casing maps every code point to at least one code point, so it never
  turns a non-empty string into the empty one. This is the only fact about the table
  that the theorems below assume.
\<close>

definition keeps_nonempty :: "(jsstring \<Rightarrow> jsstring) \<Rightarrow> bool" where
  "keeps_nonempty ucd \<longleftrightarrow> (\<forall>s. s \<noteq> [] \<longrightarrow> ucd s \<noteq> [])"

subsection \<open>Numbers in a template literal\<close>

text \<open>
  \<open>first\<close> and \<open>last\<close> are integers far below \<open>2^53\<close> (they are bounded by the length of
  a string), so the doubles of the source are exact and are modelled as \<open>int\<close>; such a
  number is printed in decimal, with a leading minus sign when negative.
\<close>

definition digit_unit :: "nat \<Rightarrow> unit16" where
  "digit_unit d = of_nat (48 + d)"

fun digits10 :: "nat \<Rightarrow> jsstring" where
  "digits10 n = (if n < 10 then [digit_unit n] else digits10 (n div 10) @ [digit_unit (n mod 10)])"

declare digits10.simps [simp del]

definition number_to_string :: "int \<Rightarrow> jsstring" where
  "number_to_string k = (if k < 0 then 0x2D # digits10 (nat (- k)) else digits10 (nat k))"

subsection \<open>The scan\<close>

record run =
  str :: jsstring
  start :: nat

record scan_state =
  maxLen :: nat
  substrings :: "run list"

text \<open>The inner \<open>while\<close> loop: \<open>j\<close> moves right while the next unit is strictly greater.\<close>

function run_end :: "jsstring \<Rightarrow> nat \<Rightarrow> nat" where
  "run_end lower j =
     (if j + 1 < length lower \<and> lower ! j < lower ! (j + 1) then run_end lower (j + 1) else j)"
  by pat_completeness auto
termination
  by (relation "measure (\<lambda>(lower, j). length lower - j)") auto

declare run_end.simps [simp del]

text \<open>One pass of the body of the \<open>for\<close> loop for the run from \<open>i\<close> to \<open>j\<close>.\<close>

definition record_run :: "jsstring \<Rightarrow> nat \<Rightarrow> nat \<Rightarrow> scan_state \<Rightarrow> scan_state" where
  "record_run lower i j st =
     (let len = j - i + 1
      in if len > maxLen st
         then \<lparr>maxLen = len, substrings = [\<lparr>str = slice_str lower i (j + 1), start = i\<rparr>]\<rparr>
         else if len = maxLen st
         then st\<lparr>substrings := substrings st @ [\<lparr>str = slice_str lower i (j + 1), start = i\<rparr>]\<rparr>
         else st)"

text \<open>The \<open>for\<close> loop: after the body \<open>i = j\<close>, then \<open>i++\<close>.\<close>

function scan_loop :: "jsstring \<Rightarrow> nat \<Rightarrow> scan_state \<Rightarrow> scan_state" where
  "scan_loop lower i st =
     (if i < length lower
      then scan_loop lower (run_end lower i + 1) (record_run lower i (run_end lower i) st)
      else st)"
  by pat_completeness auto
termination
proof (relation "measure (\<lambda>(lower, i, st). length lower - i)")
  show "wf (measure (\<lambda>(lower, i, st). length lower - i))" by simp
next
  have ge: "j \<le> run_end l j" for l :: jsstring and j :: nat
  proof (induction l j rule: run_end.induct)
    case (1 l j)
    show ?case
    proof (cases "j + 1 < length l \<and> l ! j < l ! (j + 1)")
      case True
      with 1 have "j + 1 \<le> run_end l (j + 1)" by simp
      moreover from True have "run_end l j = run_end l (j + 1)"
        by (subst run_end.simps) simp
      ultimately show ?thesis by simp
    next
      case False
      then show ?thesis by (subst run_end.simps) auto
    qed
  qed
  fix lower :: jsstring and i :: nat and st :: scan_state
  assume "i < length lower"
  with ge [of i lower]
  show "((lower, run_end lower i + 1, record_run lower i (run_end lower i) st), (lower, i, st))
      \<in> measure (\<lambda>(lower, i, st). length lower - i)"
    by simp
qed

declare scan_loop.simps [simp del]

definition scan :: "jsstring \<Rightarrow> scan_state" where
  "scan lower = scan_loop lower 0 \<lparr>maxLen = 0, substrings = []\<rparr>"

subsection \<open>The digest\<close>

text \<open>
  \<open>crypto.createHash('sha1').update(productName).digest('hex')\<close> belongs to the runtime,
  not to the program. It is modelled from its documentation: \<open>update\<close> encodes the string
  as UTF-8 (a surrogate without its partner becomes U+FFFD), the digest is SHA-1 as in
  FIPS 180-4, and \<open>'hex'\<close> prints the 20 bytes as 40 lowercase hexadecimal digits.
  The model is checked below against the first example of the standard (\<open>sha1_hex_abc\<close>).
\<close>

definition is_high_surrogate :: "unit16 \<Rightarrow> bool" where
  "is_high_surrogate c \<longleftrightarrow> 0xD800 \<le> c \<and> c < 0xDC00"

definition is_low_surrogate :: "unit16 \<Rightarrow> bool" where
  "is_low_surrogate c \<longleftrightarrow> 0xDC00 \<le> c \<and> c < 0xE000"

definition scalar_of_unit :: "unit16 \<Rightarrow> word32" where
  "scalar_of_unit c = (if is_high_surrogate c \<or> is_low_surrogate c then 0xFFFD else ucast c)"

fun code_points :: "jsstring \<Rightarrow> word32 list" where
  "code_points [] = []"
| "code_points [c] = [scalar_of_unit c]"
| "code_points (c # d # cs) =
     (if is_high_surrogate c \<and> is_low_surrogate d
      then (0x10000 + push_bit 10 (ucast c - 0xD800) + (ucast d - 0xDC00)) # code_points cs
      else scalar_of_unit c # code_points (d # cs))"

definition utf8_of_code_point :: "word32 \<Rightarrow> byte list" where
  "utf8_of_code_point p =
     (if p < 0x80 then [ucast p]
      else if p < 0x800 then [0xC0 OR ucast (drop_bit 6 p), 0x80 OR ucast (p AND 0x3F)]
      else if p < 0x10000 then
        [0xE0 OR ucast (drop_bit 12 p), 0x80 OR ucast (drop_bit 6 p AND 0x3F),
         0x80 OR ucast (p AND 0x3F)]
      else
        [0xF0 OR ucast (drop_bit 18 p), 0x80 OR ucast (drop_bit 12 p AND 0x3F),
         0x80 OR ucast (drop_bit 6 p AND 0x3F), 0x80 OR ucast (p AND 0x3F)])"

definition utf8_encode :: "jsstring \<Rightarrow> byte list" where
  "utf8_encode s = concat (map utf8_of_code_point (code_points s))"

text \<open>
  Padding: a \<open>1\<close> bit, zero bits up to 56 modulo 64 bytes, then the length of the message
  in bits as a 64-bit big-endian number.
\<close>

definition sha1_pad :: "byte list \<Rightarrow> byte list" where
  "sha1_pad m =
     m @ [0x80] @ replicate ((119 - length m mod 64) mod 64) 0
       @ map (\<lambda>i. ucast (drop_bit (8 * i) (8 * of_nat (length m) :: 64 word)))
           [7, 6, 5, 4, 3, 2, 1, 0]"

fun words_be :: "byte list \<Rightarrow> word32 list" where
  "words_be (b0 # b1 # b2 # b3 # bs) =
     (push_bit 24 (ucast b0) OR push_bit 16 (ucast b1) OR push_bit 8 (ucast b2) OR ucast b3)
       # words_be bs"
| "words_be bs = []"

definition rotl :: "nat \<Rightarrow> word32 \<Rightarrow> word32" where
  "rotl n w = push_bit n w OR drop_bit (32 - n) w"

definition sha1_f :: "nat \<Rightarrow> word32 \<Rightarrow> word32 \<Rightarrow> word32 \<Rightarrow> word32" where
  "sha1_f t b c d =
     (if t < 20 then (b AND c) OR (NOT b AND d)
      else if t < 40 then b XOR c XOR d
      else if t < 60 then (b AND c) OR (b AND d) OR (c AND d)
      else b XOR c XOR d)"

definition sha1_k :: "nat \<Rightarrow> word32" where
  "sha1_k t =
     (if t < 20 then 0x5A827999 else if t < 40 then 0x6ED9EBA1
      else if t < 60 then 0x8F1BBCDC else 0xCA62C1D6)"

type_synonym sha1_state = "word32 \<times> word32 \<times> word32 \<times> word32 \<times> word32"

text \<open>
  Round \<open>t\<close> on the working variables and a window of the message schedule: the window
  holds \<open>W\<^sub>t, \<dots>, W\<^sub>t\<^sub>+\<^sub>1\<^sub>5\<close>, and
  \<open>W\<^sub>t\<^sub>+\<^sub>1\<^sub>6 = rotl 1 (W\<^sub>t\<^sub>+\<^sub>1\<^sub>3 XOR W\<^sub>t\<^sub>+\<^sub>8 XOR W\<^sub>t\<^sub>+\<^sub>2 XOR W\<^sub>t)\<close>.
\<close>

fun sha1_round :: "nat \<Rightarrow> sha1_state \<times> word32 list \<Rightarrow> sha1_state \<times> word32 list" where
  "sha1_round t ((a, b, c, d, e), w) =
     ((rotl 5 a + sha1_f t b c d + e + sha1_k t + w ! 0, a, rotl 30 b, c, d),
      tl w @ [rotl 1 (w ! 13 XOR w ! 8 XOR w ! 2 XOR w ! 0)])"

definition sha1_block :: "sha1_state \<Rightarrow> byte list \<Rightarrow> sha1_state" where
  "sha1_block h blk =
     (case h of (h0, h1, h2, h3, h4) \<Rightarrow>
        (case fst (fold sha1_round [0..<80] (h, words_be blk)) of
           (a, b, c, d, e) \<Rightarrow> (h0 + a, h1 + b, h2 + c, h3 + d, h4 + e)))"

function sha1_blocks :: "sha1_state \<Rightarrow> byte list \<Rightarrow> sha1_state" where
  "sha1_blocks h bs =
     (if length bs < 64 then h else sha1_blocks (sha1_block h (take 64 bs)) (drop 64 bs))"
  by pat_completeness auto
termination
  by (relation "measure (\<lambda>(h, bs). length bs)") auto

declare sha1_blocks.simps [simp del]

definition sha1 :: "byte list \<Rightarrow> sha1_state" where
  "sha1 m =
     sha1_blocks (0x67452301, 0xEFCDAB89, 0x98BADCFE, 0x10325476, 0xC3D2E1F0) (sha1_pad m)"

definition hex_digit :: "nat \<Rightarrow> unit16" where
  "hex_digit n = of_nat (if n < 10 then 48 + n else 87 + n)"

definition hex32 :: "word32 \<Rightarrow> jsstring" where
  "hex32 w = map (\<lambda>i. hex_digit (unat w div 16 ^ i mod 16)) [7, 6, 5, 4, 3, 2, 1, 0]"

definition sha1_hex :: "byte list \<Rightarrow> jsstring" where
  "sha1_hex m =
     (case sha1 m of (a, b, c, d, e) \<Rightarrow> hex32 a @ hex32 b @ hex32 c @ hex32 d @ hex32 e)"

subsection \<open>The function\<close>

text \<open>
  \<open>substrings[0].start\<close> reads a property of \<open>undefined\<close> when the list is empty, which
  throws a \<open>TypeError\<close>; nothing else in the body can throw.
\<close>

datatype error = TypeError

definition generateProductCode :: "(jsstring \<Rightarrow> jsstring) \<Rightarrow> jsstring \<Rightarrow> error + jsstring" where
  "generateProductCode ucd productName =
     (let lower = toLowerCase ucd productName;
          st = scan lower;
          joined = concat (map str (substrings st))
      in case substrings st of
           [] \<Rightarrow> Inl TypeError
         | s0 # _ \<Rightarrow>
             (let first = int (start s0);
                  last = first + int (maxLen st) - 1;
                  hash = slice_str (sha1_hex (utf8_encode productName)) 0 8
              in Inr (hash @ [0x2D] @ number_to_string first @ joined @ number_to_string last)))"

subsection \<open>The function, one statement at a time\<close>

text \<open>
  The same body once more, now as a sequence of assignments to an explicit frame that
  holds the local bindings of a call (\<open>lower\<close>, \<open>maxLen\<close>, \<open>substrings\<close>, \<open>i\<close>, \<open>j\<close>,
  \<open>len\<close>, \<open>concat\<close>, \<open>first\<close>, \<open>last\<close>, \<open>hash\<close>). The frame a call starts from is
  arbitrary: it stands for whatever an earlier call, or anything else, has left behind.
  Each declaration of the source is the assignment of its initial value; a call returns
  its result together with the frame as it leaves it.
\<close>

record frame =
  v_lower :: jsstring
  v_maxLen :: nat
  v_substrings :: "run list"
  v_i :: nat
  v_j :: nat
  v_len :: nat
  v_concat :: jsstring
  v_first :: int
  v_last :: int
  v_hash :: jsstring

function while_frame :: "frame \<Rightarrow> frame" where
  "while_frame fr =
     (if v_j fr + 1 < length (v_lower fr) \<and> v_lower fr ! v_j fr < v_lower fr ! (v_j fr + 1)
      then while_frame (fr\<lparr>v_j := v_j fr + 1\<rparr>)
      else fr)"
  by pat_completeness auto
termination
  by (relation "measure (\<lambda>fr. length (v_lower fr) - v_j fr)") auto

declare while_frame.simps [simp del]

definition for_body :: "frame \<Rightarrow> frame" where
  "for_body fr =
     (let fr1 = while_frame (fr\<lparr>v_j := v_i fr\<rparr>);
          fr2 = fr1\<lparr>v_len := v_j fr1 - v_i fr1 + 1\<rparr>;
          fr3 = (if v_len fr2 > v_maxLen fr2
                 then fr2\<lparr>v_maxLen := v_len fr2,
                          v_substrings :=
                            [\<lparr>str = slice_str (v_lower fr2) (v_i fr2) (v_j fr2 + 1), start = v_i fr2\<rparr>]\<rparr>
                 else if v_len fr2 = v_maxLen fr2
                 then fr2\<lparr>v_substrings := v_substrings fr2 @
                            [\<lparr>str = slice_str (v_lower fr2) (v_i fr2) (v_j fr2 + 1), start = v_i fr2\<rparr>]\<rparr>
                 else fr2)
      in fr3\<lparr>v_i := v_j fr3\<rparr>)"

function for_frame :: "frame \<Rightarrow> frame" where
  "for_frame fr =
     (if v_i fr < length (v_lower fr)
      then for_frame ((for_body fr)\<lparr>v_i := v_i (for_body fr) + 1\<rparr>)
      else fr)"
  by pat_completeness auto
termination
proof (relation "measure (\<lambda>fr. length (v_lower fr) - v_i fr)")
  show "wf (measure (\<lambda>fr. length (v_lower fr) - v_i fr))" by simp
next
  have keep: "v_lower (while_frame g) = v_lower g \<and> v_j g \<le> v_j (while_frame g)" for g
  proof (induction g rule: while_frame.induct)
    case (1 g)
    show ?case
    proof (cases "v_j g + 1 < length (v_lower g) \<and> v_lower g ! v_j g < v_lower g ! (v_j g + 1)")
      case True
      then have "while_frame g = while_frame (g\<lparr>v_j := v_j g + 1\<rparr>)"
        by (subst while_frame.simps) simp
      with 1 True show ?thesis by simp
    next
      case False
      then have "while_frame g = g" by (subst while_frame.simps) auto
      then show ?thesis by simp
    qed
  qed
  fix fr :: frame
  assume "v_i fr < length (v_lower fr)"
  moreover from keep [of "fr\<lparr>v_j := v_i fr\<rparr>"]
  have "v_lower (for_body fr) = v_lower fr" and "v_i fr \<le> v_i (for_body fr)"
    by (simp_all add: for_body_def Let_def)
  ultimately show "((for_body fr)\<lparr>v_i := v_i (for_body fr) + 1\<rparr>, fr)
      \<in> measure (\<lambda>fr. length (v_lower fr) - v_i fr)"
    by simp
qed

declare for_frame.simps [simp del]

definition generateProductCode_call ::
  "(jsstring \<Rightarrow> jsstring) \<Rightarrow> frame \<Rightarrow> jsstring \<Rightarrow> (error + jsstring) \<times> frame" where
  "generateProductCode_call ucd fr productName =
     (let fr1 = fr\<lparr>v_lower := toLowerCase ucd productName\<rparr>;
          fr2 = fr1\<lparr>v_maxLen := 0, v_substrings := []\<rparr>;
          fr3 = for_frame (fr2\<lparr>v_i := 0\<rparr>);
          fr4 = fr3\<lparr>v_concat := concat (map str (v_substrings fr3))\<rparr>
      in case v_substrings fr4 of
           [] \<Rightarrow> (Inl TypeError, fr4)
         | s0 # _ \<Rightarrow>
             (let fr5 = fr4\<lparr>v_first := int (start s0)\<rparr>;
                  fr6 = fr5\<lparr>v_last := v_first fr5 + int (v_maxLen fr5) - 1\<rparr>;
                  fr7 = fr6\<lparr>v_hash := slice_str (sha1_hex (utf8_encode productName)) 0 8\<rparr>
              in (Inr (v_hash fr7 @ [0x2D] @ number_to_string (v_first fr7) @ v_concat fr7
                        @ number_to_string (v_last fr7)),
                  fr7)))"

definition scan_state_of :: "frame \<Rightarrow> scan_state" where
  "scan_state_of fr = \<lparr>maxLen = v_maxLen fr, substrings = v_substrings fr\<rparr>"

section \<open>What the specification calls a run\<close>

text \<open>
  These definitions follow the words of the specification, not the code. A run is a pair
  of indices \<open>(i, j)\<close>, both inclusive. It is a maximal strictly-increasing run when each
  unit from \<open>i + 1\<close> to \<open>j\<close> strictly exceeds the one before it and the run can be
  extended neither to the left nor to the right.
\<close>

definition strictly_increasing :: "jsstring \<Rightarrow> nat \<Rightarrow> nat \<Rightarrow> bool" where
  "strictly_increasing s i j \<longleftrightarrow> (\<forall>k\<in>{i..<j}. s ! k < s ! (k + 1))"

definition maximal_run :: "jsstring \<Rightarrow> nat \<Rightarrow> nat \<Rightarrow> bool" where
  "maximal_run s i j \<longleftrightarrow>
     i \<le> j \<and> j < length s \<and> strictly_increasing s i j
     \<and> (i = 0 \<or> \<not> s ! (i - 1) < s ! i)
     \<and> (j + 1 = length s \<or> \<not> s ! j < s ! (j + 1))"

text \<open>All maximal runs, ordered by start index, that is, from left to right.\<close>

definition maximal_runs :: "jsstring \<Rightarrow> (nat \<times> nat) list" where
  "maximal_runs s =
     filter (\<lambda>(i, j). maximal_run s i j) (List.product [0..<length s] [0..<length s])"

definition run_length :: "nat \<times> nat \<Rightarrow> nat" where
  "run_length r = snd r - fst r + 1"

text \<open>The tied-maximum set: the maximal runs that no maximal run exceeds in length.\<close>

definition tied_runs :: "jsstring \<Rightarrow> (nat \<times> nat) list" where
  "tied_runs s =
     filter (\<lambda>r. \<forall>r'\<in>set (maximal_runs s). run_length r' \<le> run_length r) (maximal_runs s)"

definition substring :: "jsstring \<Rightarrow> nat \<times> nat \<Rightarrow> jsstring" where
  "substring s r = map (\<lambda>k. s ! k) [fst r..<snd r + 1]"

text \<open>The first eight hexadecimal digits of the SHA-1 digest of a string as it is.\<close>

definition hash8 :: "jsstring \<Rightarrow> jsstring" where
  "hash8 s = take 8 (sha1_hex (utf8_encode s))"

text \<open>A tied run as the record the scan is said to keep: its substring and its start.\<close>

definition tied_record :: "jsstring \<Rightarrow> nat \<times> nat \<Rightarrow> run" where
  "tied_record s r = \<lparr>str = substring s r, start = fst r\<rparr>"

subsection \<open>The output format\<close>

text \<open>
  The regular expression \<^verbatim>\<open>^[0-9a-f]{8}-\d+.*\d+$\<close>, read with
  the rules of the language: \<^verbatim>\<open>\d\<close> is an ASCII digit, and
  \<^verbatim>\<open>.\<close> is any unit but a line terminator. A string matches when it
  is eight lowercase hexadecimal digits, a dash, and a rest that splits at some
  \<open>0 < i \<le> j < length rest\<close> into digits, units that are not line terminators, and
  digits.
\<close>

definition is_digit :: "unit16 \<Rightarrow> bool" where
  "is_digit c \<longleftrightarrow> 0x30 \<le> c \<and> c \<le> 0x39"

definition is_lower_hex :: "unit16 \<Rightarrow> bool" where
  "is_lower_hex c \<longleftrightarrow> is_digit c \<or> (0x61 \<le> c \<and> c \<le> 0x66)"

definition is_line_terminator :: "unit16 \<Rightarrow> bool" where
  "is_line_terminator c \<longleftrightarrow> c = 0x0A \<or> c = 0x0D \<or> c = 0x2028 \<or> c = 0x2029"

definition matches_tail :: "jsstring \<Rightarrow> bool" where
  "matches_tail rest \<longleftrightarrow>
     (\<exists>i\<in>{1..<length rest}. \<exists>j\<in>{i..<length rest}.
        list_all is_digit (take i rest)
        \<and> list_all (\<lambda>c. \<not> is_line_terminator c) (take (j - i) (drop i rest))
        \<and> list_all is_digit (drop j rest))"

definition matches_format :: "jsstring \<Rightarrow> bool" where
  "matches_format code \<longleftrightarrow>
     9 \<le> length code \<and> list_all is_lower_hex (take 8 code) \<and> code ! 8 = 0x2D
     \<and> matches_tail (drop 9 code)"

section \<open>The scan finds the tied maximal runs\<close>

text \<open>Auxiliary notions for the proofs.\<close>

definition run_start :: "jsstring \<Rightarrow> nat \<Rightarrow> bool" where
  "run_start s i \<longleftrightarrow> i = 0 \<or> \<not> s ! (i - 1) < s ! i"

definition runs_from :: "jsstring \<Rightarrow> nat \<Rightarrow> (nat \<times> nat) list" where
  "runs_from s i =
     filter (\<lambda>(a, b). maximal_run s a b) (List.product [i..<length s] [0..<length s])"

definition step :: "jsstring \<Rightarrow> nat \<times> nat \<Rightarrow> scan_state \<Rightarrow> scan_state" where
  "step s r st = record_run s (fst r) (snd r) st"

definition run_record :: "jsstring \<Rightarrow> nat \<times> nat \<Rightarrow> run" where
  "run_record s r = \<lparr>str = slice_str s (fst r) (snd r + 1), start = fst r\<rparr>"

definition longest_in :: "(nat \<times> nat) list \<Rightarrow> nat \<times> nat \<Rightarrow> bool" where
  "longest_in rs r \<longleftrightarrow> (\<forall>r'\<in>set rs. run_length r' \<le> run_length r)"

definition scan_inv :: "jsstring \<Rightarrow> scan_state \<Rightarrow> (nat \<times> nat) list \<Rightarrow> bool" where
  "scan_inv s st seen \<longleftrightarrow>
     substrings st = map (run_record s) (filter (longest_in seen) seen)
     \<and> (\<forall>r\<in>set seen. run_length r \<le> maxLen st)
     \<and> (seen = [] \<longrightarrow> maxLen st = 0)
     \<and> (seen \<noteq> [] \<longrightarrow> (\<exists>r\<in>set seen. run_length r = maxLen st))"

subsection \<open>The inner loop\<close>

lemma run_end_unfold_step:
  "j + 1 < length lower \<Longrightarrow> lower ! j < lower ! (j + 1) \<Longrightarrow> run_end lower j = run_end lower (j + 1)"
  by (subst run_end.simps) simp

lemma run_end_unfold_stop:
  "\<not> (j + 1 < length lower \<and> lower ! j < lower ! (j + 1)) \<Longrightarrow> run_end lower j = j"
  by (subst run_end.simps) auto

lemma run_end_ge: "i \<le> run_end lower i"
proof (induction lower i rule: run_end.induct)
  case (1 lower j)
  show ?case
  proof (cases "j + 1 < length lower \<and> lower ! j < lower ! (j + 1)")
    case True
    with 1 have "j + 1 \<le> run_end lower (j + 1)" by simp
    moreover from True have "run_end lower j = run_end lower (j + 1)"
      by (simp add: run_end_unfold_step)
    ultimately show ?thesis by simp
  next
    case False
    then show ?thesis by (simp add: run_end_unfold_stop)
  qed
qed

lemma run_end_lt: "j < length s \<Longrightarrow> run_end s j < length s"
proof (induction s j rule: run_end.induct)
  case (1 lower j)
  show ?case
  proof (cases "j + 1 < length lower \<and> lower ! j < lower ! (j + 1)")
    case True
    with 1 show ?thesis by (simp add: run_end_unfold_step)
  next
    case False
    with 1 show ?thesis by (simp add: run_end_unfold_stop)
  qed
qed

lemma run_end_increasing: "j \<le> k \<Longrightarrow> k < run_end s j \<Longrightarrow> s ! k < s ! (k + 1)"
proof (induction s j rule: run_end.induct)
  case (1 lower j)
  show ?case
  proof (cases "j + 1 < length lower \<and> lower ! j < lower ! (j + 1)")
    case True
    then have eq: "run_end lower j = run_end lower (j + 1)"
      by (simp add: run_end_unfold_step)
    show ?thesis
    proof (cases "k = j")
      case True
      with \<open>j + 1 < length lower \<and> lower ! j < lower ! (j + 1)\<close> show ?thesis by simp
    next
      case False
      with 1 True eq show ?thesis by simp
    qed
  next
    case False
    with 1 show ?thesis by (simp add: run_end_unfold_stop)
  qed
qed

lemma run_end_stops:
  "\<not> (run_end s j + 1 < length s \<and> s ! run_end s j < s ! (run_end s j + 1))"
proof (induction s j rule: run_end.induct)
  case (1 lower j)
  show ?case
  proof (cases "j + 1 < length lower \<and> lower ! j < lower ! (j + 1)")
    case True
    with 1 show ?thesis by (simp add: run_end_unfold_step)
  next
    case False
    then show ?thesis by (simp add: run_end_unfold_stop)
  qed
qed

lemma maximal_run_iff:
  assumes "i < length s" and "run_start s i"
  shows "maximal_run s i b \<longleftrightarrow> b = run_end s i"
proof
  assume m: "maximal_run s i b"
  show "b = run_end s i"
  proof (rule ccontr)
    assume ne: "b \<noteq> run_end s i"
    show False
    proof (cases "b < run_end s i")
      case True
      from m have "i \<le> b" by (simp add: maximal_run_def)
      then have "s ! b < s ! (b + 1)" using True by (rule run_end_increasing)
      moreover from True run_end_lt [OF assms(1)] have "b + 1 \<noteq> length s" by simp
      ultimately show False using m by (simp add: maximal_run_def)
    next
      case False
      with ne have gt: "run_end s i < b" by simp
      from m have "b < length s" and inc: "strictly_increasing s i b"
        by (simp_all add: maximal_run_def)
      from gt run_end_ge [of i s] inc have "s ! run_end s i < s ! (run_end s i + 1)"
        by (simp add: strictly_increasing_def)
      moreover from gt \<open>b < length s\<close> have "run_end s i + 1 < length s" by simp
      ultimately show False using run_end_stops [of s i] by simp
    qed
  qed
next
  assume "b = run_end s i"
  with assms run_end_ge [of i s] run_end_lt [of i s] run_end_stops [of s i]
    run_end_increasing [of i _ s]
  show "maximal_run s i b"
    by (auto simp: maximal_run_def strictly_increasing_def run_start_def)
qed

lemma inside_not_maximal:
  assumes "i < a" and "a \<le> run_end s i"
  shows "\<not> maximal_run s a b"
proof -
  from assms have "i \<le> a - 1" and "a - 1 < run_end s i" by simp_all
  then have "s ! (a - 1) < s ! (a - 1 + 1)" by (rule run_end_increasing)
  with assms show ?thesis by (simp add: maximal_run_def)
qed


subsection \<open>The outer loop enumerates the maximal runs\<close>

lemma product_append_left:
  "List.product (xs @ ys) zs = List.product xs zs @ List.product ys zs"
  by (induction xs) simp_all

lemma upt_split: "a \<le> b \<Longrightarrow> b \<le> c \<Longrightarrow> [a..<c] = [a..<b] @ [b..<c]"
  using upt_add_eq_append [of a b "c - b"] by simp

lemma filter_eq_upt: "filter (\<lambda>b. b = e) [0..<n] = (if e < n then [e] else [])"
  by (induction n) auto

lemma runs_from_step:
  assumes "i < length s" and "run_start s i"
  shows "runs_from s i = (i, run_end s i) # runs_from s (run_end s i + 1)"
proof -
  let ?n = "length s" and ?e = "run_end s i"
  let ?P = "\<lambda>(a, b). maximal_run s a b"
  define inner where "inner = [i + 1..<?e + 1]"
  define rest where "rest = [?e + 1..<?n]"
  have e: "i \<le> ?e" "?e < ?n"
    using run_end_ge [of i s] run_end_lt [OF assms(1)] by simp_all
  have split: "[i..<?n] = i # (inner @ rest)"
  proof -
    have "[i..<?n] = i # [i + 1..<?n]" using assms(1) by (simp add: upt_conv_Cons)
    moreover have "[i + 1..<?n] = [i + 1..<?e + 1] @ [?e + 1..<?n]"
      using e by (intro upt_split) simp_all
    ultimately show ?thesis by (simp only: inner_def rest_def)
  qed
  have first: "filter ?P (map (Pair i) [0..<?n]) = [(i, ?e)]"
  proof -
    have "filter ?P (map (Pair i) [0..<?n])
        = map (Pair i) (filter (\<lambda>b. maximal_run s i b) [0..<?n])"
      by (simp add: filter_map comp_def)
    also have "filter (\<lambda>b. maximal_run s i b) [0..<?n] = filter (\<lambda>b. b = ?e) [0..<?n]"
      using assms by (simp add: maximal_run_iff)
    also have "\<dots> = [?e]" using e by (simp add: filter_eq_upt)
    finally show ?thesis by simp
  qed
  have inside: "filter ?P (List.product inner [0..<?n]) = []"
  proof -
    have "\<not> maximal_run s a b" if "i < a" and "a \<le> ?e" for a b
      using that by (rule inside_not_maximal)
    then show ?thesis
      unfolding inner_def by (auto simp del: upt_Suc simp: filter_empty_conv)
  qed
  have "runs_from s i = filter ?P (List.product (i # (inner @ rest)) [0..<?n])"
    by (simp only: runs_from_def split)
  also have "\<dots> = (i, ?e) # filter ?P (List.product rest [0..<?n])"
    by (simp add: product_append_left first inside)
  also have "filter ?P (List.product rest [0..<?n]) = runs_from s (?e + 1)"
    by (simp only: runs_from_def rest_def)
  finally show ?thesis .
qed

lemma runs_from_end: "length s \<le> i \<Longrightarrow> runs_from s i = []"
  by (simp add: runs_from_def)

lemma scan_loop_fold:
  "i < length s \<longrightarrow> run_start s i \<Longrightarrow> scan_loop s i st = fold (step s) (runs_from s i) st"
proof (induction s i st rule: scan_loop.induct)
  case (1 lower i st)
  show ?case
  proof (cases "i < length lower")
    case True
    with 1(2) have rs: "run_start lower i" by simp
    have next_start: "run_end lower i + 1 < length lower \<longrightarrow> run_start lower (run_end lower i + 1)"
      using run_end_stops [of lower i] by (simp add: run_start_def)
    have "scan_loop lower i st
        = scan_loop lower (run_end lower i + 1) (record_run lower i (run_end lower i) st)"
      using True by (subst scan_loop.simps) simp
    also have "\<dots> = fold (step lower) (runs_from lower (run_end lower i + 1))
        (record_run lower i (run_end lower i) st)"
      using True next_start by (rule 1(1))
    also have "\<dots> = fold (step lower) (runs_from lower i) st"
      using True rs by (simp add: runs_from_step step_def)
    finally show ?thesis .
  next
    case False
    then show ?thesis by (subst scan_loop.simps) (simp add: runs_from_end)
  qed
qed

lemma runs_from_0: "runs_from s 0 = maximal_runs s"
  by (simp add: runs_from_def maximal_runs_def)

lemma scan_fold: "scan s = fold (step s) (maximal_runs s) \<lparr>maxLen = 0, substrings = []\<rparr>"
  unfolding scan_def by (subst scan_loop_fold) (simp_all add: run_start_def runs_from_0)

subsection \<open>The accumulator keeps the longest runs seen so far\<close>

lemma run_length_pos: "0 < run_length r"
  by (simp add: run_length_def)

lemma step_cases:
  "step s r st =
     (if run_length r > maxLen st then \<lparr>maxLen = run_length r, substrings = [run_record s r]\<rparr>
      else if run_length r = maxLen st then st\<lparr>substrings := substrings st @ [run_record s r]\<rparr>
      else st)"
  by (simp add: step_def record_run_def run_length_def run_record_def Let_def)

lemma scan_inv_step:
  assumes "scan_inv s st seen"
  shows "scan_inv s (step s r st) (seen @ [r])"
proof -
  from assms have subs: "substrings st = map (run_record s) (filter (longest_in seen) seen)"
    and le: "\<And>x. x \<in> set seen \<Longrightarrow> run_length x \<le> maxLen st"
    and empty: "seen = [] \<Longrightarrow> maxLen st = 0"
    and attained: "seen \<noteq> [] \<Longrightarrow> \<exists>x\<in>set seen. run_length x = maxLen st"
    by (simp_all add: scan_inv_def)
  have longest_seen: "longest_in seen x \<longleftrightarrow> run_length x = maxLen st" if "x \<in> set seen" for x
  proof
    assume "longest_in seen x"
    moreover from that have "seen \<noteq> []" by auto
    then obtain y where "y \<in> set seen" "run_length y = maxLen st" using attained by blast
    ultimately have "maxLen st \<le> run_length x" by (auto simp: longest_in_def)
    with le [OF that] show "run_length x = maxLen st" by simp
  next
    assume "run_length x = maxLen st"
    with le show "longest_in seen x" by (simp add: longest_in_def)
  qed
  consider (gt) "run_length r > maxLen st" | (eq) "run_length r = maxLen st"
    | (lt) "run_length r < maxLen st" by linarith
  then show ?thesis
  proof cases
    case gt
    have "filter (longest_in (seen @ [r])) seen = []"
      using gt le by (fastforce simp: filter_empty_conv longest_in_def)
    moreover have "longest_in (seen @ [r]) r"
      using gt le by (fastforce simp: longest_in_def)
    ultimately show ?thesis
      using gt le by (fastforce simp: scan_inv_def step_cases)
  next
    case eq
    have "seen \<noteq> []" using eq empty run_length_pos [of r] by auto
    have "filter (longest_in (seen @ [r])) seen = filter (longest_in seen) seen"
    proof (rule filter_cong [OF refl])
      fix x assume "x \<in> set seen"
      with eq longest_seen [OF this] le show "longest_in (seen @ [r]) x = longest_in seen x"
        by (auto simp: longest_in_def)
    qed
    moreover have "longest_in (seen @ [r]) r"
      using eq le by (auto simp: longest_in_def)
    ultimately show ?thesis
      using eq le subs \<open>seen \<noteq> []\<close> attained by (auto simp: scan_inv_def step_cases)
  next
    case lt
    have "seen \<noteq> []" using lt empty by auto
    have "filter (longest_in (seen @ [r])) seen = filter (longest_in seen) seen"
    proof (rule filter_cong [OF refl])
      fix x assume "x \<in> set seen"
      with lt longest_seen [OF this] le show "longest_in (seen @ [r]) x = longest_in seen x"
        by (auto simp: longest_in_def)
    qed
    moreover have "\<not> longest_in (seen @ [r]) r"
    proof -
      from attained [OF \<open>seen \<noteq> []\<close>] obtain y where "y \<in> set seen" "run_length y = maxLen st"
        by blast
      with lt have "\<exists>y\<in>set (seen @ [r]). \<not> run_length y \<le> run_length r"
        by (intro bexI [of _ y]) simp_all
      then show ?thesis by (simp add: longest_in_def)
    qed
    ultimately show ?thesis
      using lt le subs \<open>seen \<noteq> []\<close> attained by (auto simp: scan_inv_def step_cases)
  qed
qed

lemma scan_inv_fold:
  "scan_inv s st seen \<Longrightarrow> scan_inv s (fold (step s) rs st) (seen @ rs)"
proof (induction rs arbitrary: st seen)
  case Nil
  then show ?case by simp
next
  case (Cons r rs)
  from Cons.prems have "scan_inv s (step s r st) (seen @ [r])" by (rule scan_inv_step)
  then have "scan_inv s (fold (step s) rs (step s r st)) ((seen @ [r]) @ rs)"
    by (rule Cons.IH)
  then show ?case by simp
qed

lemma scan_inv_scan: "scan_inv s (scan s) (maximal_runs s)"
proof -
  have "scan_inv s \<lparr>maxLen = 0, substrings = []\<rparr> []" by (simp add: scan_inv_def)
  then have "scan_inv s (fold (step s) (maximal_runs s) \<lparr>maxLen = 0, substrings = []\<rparr>)
      ([] @ maximal_runs s)"
    by (rule scan_inv_fold)
  then show ?thesis by (simp add: scan_fold)
qed

subsection \<open>The result of the scan\<close>

lemma maximal_runs_member:
  "r \<in> set (maximal_runs s) \<Longrightarrow> maximal_run s (fst r) (snd r)"
  by (auto simp: maximal_runs_def)

lemma map_nth_upt_take_drop:
  assumes "a \<le> b" and "b \<le> length s"
  shows "map (\<lambda>k. s ! k) [a..<b] = take (b - a) (drop a s)"
proof (rule nth_equalityI)
  show "length (map (\<lambda>k. s ! k) [a..<b]) = length (take (b - a) (drop a s))"
    using assms by simp
next
  fix i assume "i < length (map (\<lambda>k. s ! k) [a..<b])"
  then have "i < b - a" by simp
  with assms show "map (\<lambda>k. s ! k) [a..<b] ! i = take (b - a) (drop a s) ! i"
    by simp
qed

lemma slice_substring:
  assumes "fst r \<le> snd r" and "snd r < length s"
  shows "slice_str s (fst r) (snd r + 1) = substring s r"
proof -
  from assms have "map (\<lambda>k. s ! k) [fst r..<snd r + 1] = take (snd r + 1 - fst r) (drop (fst r) s)"
    by (intro map_nth_upt_take_drop) simp_all
  moreover from assms have "slice_str s (fst r) (snd r + 1) = take (snd r + 1 - fst r) (drop (fst r) s)"
    by (simp add: slice_str_def min_def Let_def)
  ultimately show ?thesis by (simp only: substring_def)
qed

lemma run_record_maximal:
  "r \<in> set (maximal_runs s) \<Longrightarrow> run_record s r = tied_record s r"
  using maximal_runs_member [of r s] slice_substring [of r s]
  by (simp add: run_record_def tied_record_def maximal_run_def)

lemma tied_runs_longest: "tied_runs s = filter (longest_in (maximal_runs s)) (maximal_runs s)"
  by (simp add: tied_runs_def longest_in_def [abs_def])

lemma scan_substrings: "substrings (scan s) = map (tied_record s) (tied_runs s)"
proof -
  have "substrings (scan s) = map (run_record s) (tied_runs s)"
    using scan_inv_scan [of s] by (simp add: scan_inv_def tied_runs_longest)
  also have "\<dots> = map (tied_record s) (tied_runs s)"
    by (rule map_cong [OF refl]) (simp add: run_record_maximal tied_runs_def)
  finally show ?thesis .
qed

lemma maximal_runs_nonempty: "s \<noteq> [] \<Longrightarrow> maximal_runs s \<noteq> []"
  using runs_from_step [of 0 s] by (simp add: runs_from_0 run_start_def)

lemma tied_runs_maxLen:
  assumes "r \<in> set (tied_runs s)"
  shows "run_length r = maxLen (scan s)"
proof -
  from assms have mem: "r \<in> set (maximal_runs s)" and long: "longest_in (maximal_runs s) r"
    by (simp_all add: tied_runs_longest)
  from scan_inv_scan [of s] mem have le: "run_length r \<le> maxLen (scan s)"
    by (simp add: scan_inv_def)
  from mem have "maximal_runs s \<noteq> []" by auto
  with scan_inv_scan [of s] obtain y where "y \<in> set (maximal_runs s)" "run_length y = maxLen (scan s)"
    by (auto simp: scan_inv_def)
  with long have "maxLen (scan s) \<le> run_length r" by (auto simp: longest_in_def)
  with le show ?thesis by simp
qed

lemma tied_runs_nonempty:
  assumes "s \<noteq> []"
  shows "tied_runs s \<noteq> []"
proof -
  from assms have ne: "maximal_runs s \<noteq> []" by (rule maximal_runs_nonempty)
  with scan_inv_scan [of s] obtain y where y: "y \<in> set (maximal_runs s)" "run_length y = maxLen (scan s)"
    by (auto simp: scan_inv_def)
  with scan_inv_scan [of s] have "longest_in (maximal_runs s) y"
    by (simp add: scan_inv_def longest_in_def)
  with y show ?thesis by (auto simp: tied_runs_longest filter_empty_conv)
qed

lemma tied_runs_maximal: "r \<in> set (tied_runs s) \<Longrightarrow> maximal_run s (fst r) (snd r)"
  by (simp add: tied_runs_def maximal_runs_member)

lemma scan_empty: "scan [] = \<lparr>maxLen = 0, substrings = []\<rparr>"
  unfolding scan_def by (subst scan_loop.simps) simp

section \<open>The digest, the digits and the lower-casing\<close>

lemma js_eval: "js [] = []" "js (c # cs) = cu c # js cs"
  by (simp_all add: js_def)

lemma is_lower_hex_hex_digit: "n < 16 \<Longrightarrow> is_lower_hex (hex_digit n)"
  by (auto simp: hex_digit_def is_lower_hex_def is_digit_def word_le_nat_alt unat_of_nat)

lemma length_hex32: "length (hex32 w) = 8"
  by (simp add: hex32_def)

lemma list_all_hex32: "list_all is_lower_hex (hex32 w)"
  by (simp add: hex32_def is_lower_hex_hex_digit)

lemma length_sha1_hex: "length (sha1_hex m) = 40"
  by (simp add: sha1_hex_def length_hex32 split: prod.splits)

lemma list_all_sha1_hex: "list_all is_lower_hex (sha1_hex m)"
  by (simp add: sha1_hex_def list_all_hex32 split: prod.splits)

lemma length_hash8: "length (hash8 s) = 8"
  by (simp add: hash8_def length_sha1_hex)

lemma list_all_hash8: "list_all is_lower_hex (hash8 s)"
  using list_all_sha1_hex [of "utf8_encode s"]
  by (auto simp: hash8_def list_all_iff dest: in_set_takeD)

lemma slice_hash8: "slice_str (sha1_hex (utf8_encode s)) 0 8 = hash8 s"
  by (simp add: slice_str_def hash8_def length_sha1_hex)

lemma is_digit_digit_unit: "d < 10 \<Longrightarrow> is_digit (digit_unit d)"
proof -
  assume "d < 10"
  then have "unat (of_nat (48 + d) :: unit16) = 48 + d"
    by (simp only: unat_of_nat) simp
  with \<open>d < 10\<close> show ?thesis
    by (simp only: digit_unit_def is_digit_def word_le_nat_alt) simp
qed

lemma digits10_nonempty: "digits10 n \<noteq> []"
  by (subst digits10.simps) simp

lemma list_all_digits10: "list_all is_digit (digits10 n)"
proof (induction n rule: digits10.induct)
  case (1 n)
  show ?case
  proof (cases "n < 10")
    case True
    then show ?thesis by (subst digits10.simps) (simp add: is_digit_digit_unit)
  next
    case False
    with 1 show ?thesis by (subst digits10.simps) (simp add: is_digit_digit_unit)
  qed
qed

lemma number_to_string_nat: "0 \<le> k \<Longrightarrow> number_to_string k = digits10 (nat k)"
  by (simp add: number_to_string_def)

lemma toLowerCase_nonempty:
  "productName \<noteq> [] \<Longrightarrow> keeps_nonempty ucd \<Longrightarrow> toLowerCase ucd productName \<noteq> []"
  by (simp add: toLowerCase_def keeps_nonempty_def)

lemma js_dash: "js ''-'' = [0x2D]"
  by (simp add: js_eval cu_def)

section \<open>The output of the function\<close>

text \<open>The result of the function in terms of the first tied run.\<close>

lemma generateProductCode_tied:
  assumes "toLowerCase ucd productName = lower" and "tied_runs lower = r # rs"
  shows "generateProductCode ucd productName =
     Inr (hash8 productName @ js ''-'' @ number_to_string (int (fst r))
          @ concat (map (substring lower) (r # rs))
          @ number_to_string (int (fst r) + int (run_length r) - 1))"
proof -
  have subs: "substrings (scan lower) = tied_record lower r # map (tied_record lower) rs"
    using assms(2) by (simp add: scan_substrings)
  have len: "maxLen (scan lower) = run_length r"
    using tied_runs_maxLen [of r lower] assms(2) by simp
  have joined: "concat (map str (substrings (scan lower))) = concat (map (substring lower) (r # rs))"
    using assms(2) by (simp add: scan_substrings tied_record_def comp_def)
  show ?thesis
    unfolding generateProductCode_def Let_def assms(1) joined
    by (simp add: subs len slice_hash8 js_dash tied_record_def)
qed

lemma tied_runs_Cons:
  assumes "s \<noteq> []"
  obtains r rs where "tied_runs s = r # rs"
  using tied_runs_nonempty [OF assms] by (cases "tied_runs s") auto

text \<open>The result of the function from the final state of the scan.\<close>

lemma generateProductCode_scan:
  assumes "toLowerCase ucd productName = lower"
    and "scan lower = \<lparr>maxLen = m, substrings = s0 # ss\<rparr>"
  shows "generateProductCode ucd productName =
     Inr (hash8 productName @ js ''-'' @ number_to_string (int (start s0))
          @ concat (map str (s0 # ss)) @ number_to_string (int (start s0) + int m - 1))"
  unfolding generateProductCode_def Let_def assms
  by (simp add: slice_hash8 js_dash)

lemma drop_code_suffix: "drop 9 (hash8 p @ js ''-'' @ rest) = rest"
  by (simp add: js_dash length_hash8)

lemma suffix_depends_on_lower:
  assumes "toLowerCase ucd s = toLowerCase ucd t"
  shows "map_sum id (drop 9) (generateProductCode ucd s) = map_sum id (drop 9) (generateProductCode ucd t)"
proof (cases "substrings (scan (toLowerCase ucd t))")
  case Nil
  with assms show ?thesis by (simp add: generateProductCode_def)
next
  case (Cons s0 ss)
  then have st: "scan (toLowerCase ucd t) = \<lparr>maxLen = maxLen (scan (toLowerCase ucd t)), substrings = s0 # ss\<rparr>"
    by simp
  show ?thesis
    unfolding generateProductCode_scan [OF assms st] generateProductCode_scan [OF refl st]
    by (simp only: map_sum.simps drop_code_suffix)
qed

lemma matches_tailI:
  assumes "d1 \<noteq> []" and "d2 \<noteq> []" and "list_all is_digit d1"
    and "list_all (\<lambda>c. \<not> is_line_terminator c) m" and "list_all is_digit d2"
  shows "matches_tail (d1 @ m @ d2)"
proof -
  let ?i = "length d1" and ?j = "length d1 + length m"
  from assms(1,2) have "?i \<in> {1..<length (d1 @ m @ d2)}" and "?j \<in> {?i..<length (d1 @ m @ d2)}"
    by (simp_all add: Suc_le_eq)
  moreover from assms(3-5) have "list_all is_digit (take ?i (d1 @ m @ d2))
      \<and> list_all (\<lambda>c. \<not> is_line_terminator c) (take (?j - ?i) (drop ?i (d1 @ m @ d2)))
      \<and> list_all is_digit (drop ?j (d1 @ m @ d2))"
    by simp
  ultimately show ?thesis unfolding matches_tail_def by blast
qed

lemma matches_formatI:
  assumes "length h = 8" and "list_all is_lower_hex h" and "matches_tail rest"
  shows "matches_format (h @ js ''-'' @ rest)"
  using assms by (simp add: matches_format_def js_dash nth_append)

lemma substring_subset:
  assumes "snd r < length s"
  shows "set (substring s r) \<subseteq> set s"
  using assms by (auto simp: substring_def simp del: upt_Suc)

section \<open>Evaluating concrete strings\<close>

lemmas lower_eval = js_eval cu_def toLowerCase_def is_ascii_def ascii_lower_def

lemmas spec_eval = tied_runs_def maximal_runs_def maximal_run_def strictly_increasing_def
  run_length_def substring_def atLeastLessThanSuc

lemmas scan_eval = scan_def scan_loop.simps run_end.simps record_run_def slice_str_def

lemmas number_eval = number_to_string_def digits10.simps digit_unit_def

text \<open>SHA-1 of a message that fits one block, one normalised round at a time.\<close>

lemmas utf8_eval = utf8_encode_def scalar_of_unit_def is_high_surrogate_def is_low_surrogate_def
  utf8_of_code_point_def

lemma replicate_numeral: "replicate (numeral k) x = x # replicate (pred_numeral k) x"
  by (simp add: numeral_eq_Suc)

lemma length_sha1_pad_short:
  assumes "length m < 56"
  shows "length (sha1_pad m) = 64"
proof -
  from assms have "119 - length m = (55 - length m) + 64" by simp
  then have "(119 - length m) mod 64 = (55 - length m) mod 64" by (simp only: mod_add_self2)
  then have "(119 - length m) mod 64 = 55 - length m" by simp
  with assms show ?thesis by (simp add: sha1_pad_def)
qed

lemma sha1_one_block:
  assumes "length m < 56"
  shows "sha1 m = sha1_block (0x67452301, 0xEFCDAB89, 0x98BADCFE, 0x10325476, 0xC3D2E1F0) (sha1_pad m)"
proof -
  have len: "length (sha1_pad m) = 64" using assms by (rule length_sha1_pad_short)
  have first: "sha1_blocks h (sha1_pad m) = sha1_blocks (sha1_block h (sha1_pad m)) []" for h
    using len by (subst sha1_blocks.simps) simp
  have last: "sha1_blocks h [] = h" for h
    by (subst sha1_blocks.simps) simp
  show ?thesis by (simp add: sha1_def first last)
qed

lemma sha1_round_eval:
  "sha1_round t ((a, b, c, d, e), w) =
     ((take_bit 32 (rotl 5 a + sha1_f t b c d + e + sha1_k t + w ! 0), a, take_bit 32 (rotl 30 b), c, d),
      tl w @ [take_bit 32 (rotl 1 (w ! 13 XOR w ! 8 XOR w ! 2 XOR w ! 0))])"
  by (simp add: take_bit_word_eq_self)

lemmas sha1_block_eval = sha1_block_def sha1_round_eval rotl_def sha1_f_def sha1_k_def upt_rec

lemmas hex_eval = sha1_hex_def hex32_def hex_digit_def

text \<open>The first example of FIPS 180-4: the digest of \<open>abc\<close>.\<close>

lemma sha1_hex_abc: "sha1_hex (utf8_encode (js ''abc'')) = js ''a9993e364706816aba3e25717850c26c9cd0d89d''"
proof -
  have enc: "utf8_encode (js ''abc'') = [97, 98, 99]"
    by (simp add: js_eval cu_def utf8_eval)
  have blk: "words_be (sha1_pad [97, 98, 99])
      = [1633837952, 0, 0, 0, 0, 0, 0, 0, 0, 0, 0, 0, 0, 0, 0, 24]"
    by (simp add: sha1_pad_def replicate_numeral)
  have "sha1 [97, 98, 99] = (0xa9993e36, 0x4706816a, 0xba3e2571, 0x7850c26c, 0x9cd0d89d)"
    by (simp add: sha1_one_block) (simp add: sha1_block_eval blk del: sha1_round.simps)
  then show ?thesis
    unfolding enc by (simp add: hex_eval js_eval cu_def)
qed

lemma hash8_cba: "hash8 (js ''cba'') = js ''d9f0509f''"
proof -
  have enc: "utf8_encode (js ''cba'') = [99, 98, 97]"
    by (simp add: js_eval cu_def utf8_eval)
  have blk: "words_be (sha1_pad [99, 98, 97])
      = [1667391872, 0, 0, 0, 0, 0, 0, 0, 0, 0, 0, 0, 0, 0, 0, 24]"
    by (simp add: sha1_pad_def replicate_numeral)
  have "sha1 [99, 98, 97] = (3656405151, 3085483389, 1280008829, 4274457612, 235010868)"
    by (simp add: sha1_one_block) (simp add: sha1_block_eval blk del: sha1_round.simps)
  then show ?thesis
    unfolding hash8_def enc by (simp add: hex_eval js_eval cu_def)
qed

lemma hash8_IPhone: "hash8 (js ''IPhone'') = js ''7db055ff''"
proof -
  have enc: "utf8_encode (js ''IPhone'') = [73, 80, 104, 111, 110, 101]"
    by (simp add: js_eval cu_def utf8_eval)
  have blk: "words_be (sha1_pad [73, 80, 104, 111, 110, 101])
      = [1230006383, 1852145664, 0, 0, 0, 0, 0, 0, 0, 0, 0, 0, 0, 0, 0, 48]"
    by (simp add: sha1_pad_def replicate_numeral)
  have "sha1 [73, 80, 104, 111, 110, 101]
      = (2108708351, 3872430071, 1537351101, 2255991229, 1665555674)"
    by (simp add: sha1_one_block) (simp add: sha1_block_eval blk del: sha1_round.simps)
  then show ?thesis
    unfolding hash8_def enc by (simp add: hex_eval js_eval cu_def)
qed

lemma hash8_iphone: "hash8 (js ''iphone'') = js ''851aad63''"
proof -
  have enc: "utf8_encode (js ''iphone'') = [105, 112, 104, 111, 110, 101]"
    by (simp add: js_eval cu_def utf8_eval)
  have blk: "words_be (sha1_pad [105, 112, 104, 111, 110, 101])
      = [1768974447, 1852145664, 0, 0, 0, 0, 0, 0, 0, 0, 0, 0, 0, 0, 0, 48]"
    by (simp add: sha1_pad_def replicate_numeral)
  have "sha1 [105, 112, 104, 111, 110, 101]
      = (2233118051, 4074718343, 4140821477, 1582056288, 2686728538)"
    by (simp add: sha1_one_block) (simp add: sha1_block_eval blk del: sha1_round.simps)
  then show ?thesis
    unfolding hash8_def enc by (simp add: hex_eval js_eval cu_def)
qed

lemma lower_IPhone: "toLowerCase ucd (js ''IPhone'') = js ''iphone''"
  by (simp add: lower_eval)

lemma lower_iphone: "toLowerCase ucd (js ''iphone'') = js ''iphone''"
  by (simp add: lower_eval)

lemma scan_iphone:
  "scan (js ''iphone'') =
     \<lparr>maxLen = 2, substrings = [\<lparr>str = js ''ip'', start = 0\<rparr>, \<lparr>str = js ''ho'', start = 2\<rparr>]\<rparr>"
  by (simp add: js_eval cu_def scan_eval)

lemma code_IPhone: "generateProductCode ucd (js ''IPhone'') = Inr (js ''7db055ff-0ipho1'')"
  unfolding generateProductCode_scan [OF lower_IPhone scan_iphone] hash8_IPhone
  by (simp add: js_eval cu_def number_eval)

lemma code_iphone: "generateProductCode ucd (js ''iphone'') = Inr (js ''851aad63-0ipho1'')"
  unfolding generateProductCode_scan [OF lower_iphone scan_iphone] hash8_iphone
  by (simp add: js_eval cu_def number_eval)

lemma lower_cba: "toLowerCase ucd (js ''cba'') = js ''cba''"
  by (simp add: lower_eval)

lemma scan_cba:
  "scan (js ''cba'') =
     \<lparr>maxLen = 1,
      substrings = [\<lparr>str = js ''c'', start = 0\<rparr>, \<lparr>str = js ''b'', start = 1\<rparr>,
                    \<lparr>str = js ''a'', start = 2\<rparr>]\<rparr>"
  by (simp add: js_eval cu_def scan_eval)

lemma code_cba: "generateProductCode ucd (js ''cba'') = Inr (js ''d9f0509f-0cba0'')"
  unfolding generateProductCode_scan [OF lower_cba scan_cba] hash8_cba
  by (simp add: js_eval cu_def number_eval)


section \<open>The frame model computes the same result\<close>

lemma while_frame_run_end: "while_frame fr = fr\<lparr>v_j := run_end (v_lower fr) (v_j fr)\<rparr>"
proof (induction fr rule: while_frame.induct)
  case (1 fr)
  show ?case
  proof (cases "v_j fr + 1 < length (v_lower fr) \<and> v_lower fr ! v_j fr < v_lower fr ! (v_j fr + 1)")
    case True
    then have "while_frame fr = while_frame (fr\<lparr>v_j := v_j fr + 1\<rparr>)"
      by (subst while_frame.simps) simp
    also have "\<dots> = fr\<lparr>v_j := run_end (v_lower fr) (v_j fr + 1)\<rparr>"
      using 1 True by simp
    also have "run_end (v_lower fr) (v_j fr + 1) = run_end (v_lower fr) (v_j fr)"
      using True by (simp add: run_end_unfold_step)
    finally show ?thesis .
  next
    case False
    then have "while_frame fr = fr" by (subst while_frame.simps) auto
    moreover from False have "run_end (v_lower fr) (v_j fr) = v_j fr"
      by (rule run_end_unfold_stop)
    ultimately show ?thesis by simp
  qed
qed

lemma for_body_scan:
  "v_lower (for_body fr) = v_lower fr
   \<and> v_i (for_body fr) = run_end (v_lower fr) (v_i fr)
   \<and> scan_state_of (for_body fr) = record_run (v_lower fr) (v_i fr) (run_end (v_lower fr) (v_i fr)) (scan_state_of fr)"
  by (simp add: for_body_def while_frame_run_end scan_state_of_def record_run_def Let_def)

lemma for_frame_scan:
  "v_lower (for_frame fr) = v_lower fr
   \<and> scan_state_of (for_frame fr) = scan_loop (v_lower fr) (v_i fr) (scan_state_of fr)"
proof (induction fr rule: for_frame.induct)
  case (1 fr)
  show ?case
  proof (cases "v_i fr < length (v_lower fr)")
    case True
    let ?next = "(for_body fr)\<lparr>v_i := v_i (for_body fr) + 1\<rparr>"
    have next_state: "v_lower ?next = v_lower fr" "v_i ?next = run_end (v_lower fr) (v_i fr) + 1"
      "scan_state_of ?next = record_run (v_lower fr) (v_i fr) (run_end (v_lower fr) (v_i fr)) (scan_state_of fr)"
      using for_body_scan [of fr] by (simp_all add: scan_state_of_def)
    have "for_frame fr = for_frame ?next"
      using True by (subst for_frame.simps) simp
    moreover have "scan_loop (v_lower fr) (v_i fr) (scan_state_of fr)
        = scan_loop (v_lower fr) (run_end (v_lower fr) (v_i fr) + 1)
            (record_run (v_lower fr) (v_i fr) (run_end (v_lower fr) (v_i fr)) (scan_state_of fr))"
      using True by (subst scan_loop.simps) simp
    ultimately show ?thesis using 1 [OF True] next_state by simp
  next
    case False
    then have "for_frame fr = fr" by (subst for_frame.simps) simp
    moreover from False have "scan_loop (v_lower fr) (v_i fr) (scan_state_of fr) = scan_state_of fr"
      by (subst scan_loop.simps) simp
    ultimately show ?thesis by simp
  qed
qed

lemma call_result:
  "fst (generateProductCode_call ucd fr productName) = generateProductCode ucd productName"
proof -
  let ?start = "fr\<lparr>v_lower := toLowerCase ucd productName, v_maxLen := 0, v_substrings := [], v_i := 0\<rparr>"
  from for_frame_scan [of ?start]
  have "scan_state_of (for_frame ?start) = scan (toLowerCase ucd productName)"
    by (simp add: scan_def scan_state_of_def)
  then have "v_maxLen (for_frame ?start) = maxLen (scan (toLowerCase ucd productName))"
    and "v_substrings (for_frame ?start) = substrings (scan (toLowerCase ucd productName))"
    by (auto simp: scan_state_of_def dest: arg_cong [where f = maxLen] arg_cong [where f = substrings])
  then show ?thesis
    by (simp add: generateProductCode_call_def generateProductCode_def Let_def split: list.splits)
qed

lemma toLowerCase_Nil: "toLowerCase ucd [] = []"
  by (simp add: toLowerCase_def)

section \<open>The claims\<close>

text \<open>
  C1. For every non-empty input string, \<open>generateProductCode\<close> returns
  \<open>hash8\<close>, a dash, \<open>first\<close>, \<open>concat\<close> and \<open>last\<close> with nothing between the last
  three, where \<open>concat\<close> is the concatenation of the substrings of all the runs tied for
  the greatest length, \<open>first\<close> is the start index of the first of them only, and
  \<open>last = first + maxLen - 1\<close>.
\<close>

theorem generateProductCode_format:
  assumes "productName \<noteq> []" and "keeps_nonempty ucd"
  shows "let lower = toLowerCase ucd productName;
             tied = tied_runs lower;
             first = int (fst (hd tied));
             longest = int (run_length (hd tied))
         in tied \<noteq> []
            \<and> generateProductCode ucd productName =
                Inr (hash8 productName @ js ''-'' @ number_to_string first
                     @ concat (map (substring lower) tied)
                     @ number_to_string (first + longest - 1))
            \<and> int (maxLen (scan lower)) = longest"
proof -
  from assms have "toLowerCase ucd productName \<noteq> []" by (rule toLowerCase_nonempty)
  then obtain r rs where tied: "tied_runs (toLowerCase ucd productName) = r # rs"
    by (rule tied_runs_Cons)
  then have "run_length r = maxLen (scan (toLowerCase ucd productName))"
    by (intro tied_runs_maxLen) simp
  with generateProductCode_tied [OF refl tied] tied show ?thesis
    by (simp add: Let_def)
qed

theorem generateProductCode_format_witness:
  "js ''azAZ'' \<noteq> [] \<and> keeps_nonempty (\<lambda>s. s)
   \<and> generateProductCode (\<lambda>s. s) (js ''azAZ'') = Inr (hash8 (js ''azAZ'') @ js ''-0azaz1'')"
proof -
  have ne: "js ''azAZ'' \<noteq> []" by (simp add: js_eval)
  have keeps: "keeps_nonempty (\<lambda>s. s)" by (simp add: keeps_nonempty_def)
  have lower: "toLowerCase (\<lambda>s. s) (js ''azAZ'') = [97, 122, 97, 122]"
    by (simp add: lower_eval)
  have tied: "tied_runs [97, 122, 97, 122] = [(0, 1), (2, 3)]"
    by (simp add: spec_eval)
  have rest: "js ''-'' @ number_to_string (int (fst (hd [(0, 1), (2, 3 :: nat)])))
      @ concat (map (substring [97, 122, 97, 122]) [(0, 1), (2, 3)])
      @ number_to_string (int (fst (hd [(0, 1), (2, 3 :: nat)]))
          + int (run_length (hd [(0, 1), (2, 3)])) - 1)
      = js ''-0azaz1''"
    by (simp add: js_eval cu_def number_eval substring_def run_length_def)
  from generateProductCode_format [OF ne keeps]
  have "generateProductCode (\<lambda>s. s) (js ''azAZ'') = Inr (hash8 (js ''azAZ'') @ js ''-0azaz1'')"
    unfolding Let_def lower tied rest by blast
  with ne keeps show ?thesis by simp
qed

text \<open>
  C2. For every non-empty input string, the part of the result before the dash has eight
  characters and is the first eight lowercase hexadecimal characters of the SHA-1 digest
  of the input as it was given, not of its lower-case form.
\<close>

theorem hash_prefix:
  assumes "productName \<noteq> []" and "keeps_nonempty ucd"
  shows "\<exists>code. generateProductCode ucd productName = Inr code
           \<and> takeWhile (\<lambda>c. c \<noteq> 0x2D) code = take 8 (sha1_hex (utf8_encode productName))
           \<and> length (takeWhile (\<lambda>c. c \<noteq> 0x2D) code) = 8
           \<and> list_all is_lower_hex (takeWhile (\<lambda>c. c \<noteq> 0x2D) code)"
proof -
  from assms have "toLowerCase ucd productName \<noteq> []" by (rule toLowerCase_nonempty)
  then obtain r rs where tied: "tied_runs (toLowerCase ucd productName) = r # rs"
    by (rule tied_runs_Cons)
  define rest where "rest = number_to_string (int (fst r))
      @ concat (map (substring (toLowerCase ucd productName)) (r # rs))
      @ number_to_string (int (fst r) + int (run_length r) - 1)"
  have code: "generateProductCode ucd productName = Inr (hash8 productName @ 0x2D # rest)"
    using generateProductCode_tied [OF refl tied] by (simp add: rest_def js_dash)
  have no_dash: "c \<noteq> 0x2D" if "c \<in> set (hash8 productName)" for c
  proof -
    from that list_all_hash8 [of productName] have "is_lower_hex c" by (simp add: list_all_iff)
    then show ?thesis by (auto simp: is_lower_hex_def is_digit_def)
  qed
  then have "takeWhile (\<lambda>c. c \<noteq> 0x2D) (hash8 productName @ 0x2D # rest) = hash8 productName"
    by (simp add: takeWhile_append2)
  with code show ?thesis
    by (simp add: length_hash8 list_all_hash8 hash8_def [symmetric])
qed

theorem hash_prefix_witness:
  "js ''cba'' \<noteq> [] \<and> keeps_nonempty (\<lambda>s. s)
   \<and> take 8 (sha1_hex (utf8_encode (js ''cba''))) = takeWhile (\<lambda>c. c \<noteq> 0x2D) (js ''d9f0509f-0cba0'')"
proof -
  have ne: "js ''cba'' \<noteq> []" by (simp add: js_eval)
  have keeps: "keeps_nonempty (\<lambda>s. s)" by (simp add: keeps_nonempty_def)
  from hash_prefix [OF ne keeps]
  have "take 8 (sha1_hex (utf8_encode (js ''cba'')))
      = takeWhile (\<lambda>c. c \<noteq> 0x2D) (js ''d9f0509f-0cba0'')"
    unfolding code_cba by auto
  with ne keeps show ?thesis by simp
qed





text \<open>
  C5. On the empty string the scan records no run, \<open>substrings\<close> is empty, and the
  unconditional read of \<open>substrings[0].start\<close> throws: the function does not return.
\<close>

theorem empty_input_throws:
  "substrings (scan (toLowerCase ucd [])) = [] \<and> generateProductCode ucd [] = Inl TypeError"
  by (simp add: toLowerCase_Nil scan_empty generateProductCode_def)

text \<open>
  C6. \<open>IPhone\<close> and \<open>iphone\<close> give the same part after the dash and different hash
  prefixes. In general the part after the dash depends only on the lowercased input: two
  inputs with the same lower-case form agree on everything after the first nine
  characters (and fail together), while the prefix is the digest of the input as given.
\<close>

theorem case_folds_scan_not_hash:
  "generateProductCode ucd (js ''IPhone'') = Inr (js ''7db055ff-0ipho1'')
   \<and> generateProductCode ucd (js ''iphone'') = Inr (js ''851aad63-0ipho1'')
   \<and> hash8 (js ''IPhone'') \<noteq> hash8 (js ''iphone'')
   \<and> (\<forall>s t. toLowerCase ucd s = toLowerCase ucd t \<longrightarrow>
          map_sum id (drop 9) (generateProductCode ucd s)
            = map_sum id (drop 9) (generateProductCode ucd t))"
proof -
  have "hash8 (js ''IPhone'') \<noteq> hash8 (js ''iphone'')"
    unfolding hash8_IPhone hash8_iphone by (simp add: js_eval cu_def)
  then show ?thesis
    using code_IPhone code_iphone suffix_depends_on_lower by blast
qed

theorem case_folds_scan_not_hash_witness:
  "toLowerCase (\<lambda>s. s) (js ''IPhone'') = toLowerCase (\<lambda>s. s) (js ''iphone'')
   \<and> map_sum id (drop 9) (generateProductCode (\<lambda>s. s) (js ''IPhone'')) = Inr (js ''0ipho1'')
   \<and> map_sum id (drop 9) (generateProductCode (\<lambda>s. s) (js ''iphone'')) = Inr (js ''0ipho1'')"
proof -
  have same: "toLowerCase (\<lambda>s. s) (js ''IPhone'') = toLowerCase (\<lambda>s. s) (js ''iphone'')"
    by (simp add: lower_eval)
  from case_folds_scan_not_hash [of "\<lambda>s. s"]
  have code: "generateProductCode (\<lambda>s. s) (js ''iphone'') = Inr (js ''851aad63-0ipho1'')"
    and eq: "map_sum id (drop 9) (generateProductCode (\<lambda>s. s) (js ''IPhone''))
      = map_sum id (drop 9) (generateProductCode (\<lambda>s. s) (js ''iphone''))"
    using same by blast+
  have "map_sum id (drop 9) (generateProductCode (\<lambda>s. s) (js ''iphone'')) = Inr (js ''0ipho1'')"
    unfolding code by (simp add: js_eval)
  with same eq show ?thesis by simp
qed

text \<open>
  C7. Calling \<open>generateProductCode\<close> twice on the same string gives the same output.
  On the frame model: the result of a call does not depend on what the frame held before
  the call, and a second call that starts from the frame the first call left behind
  returns what the first call returned. Every binding is written before it is read, the
  accumulators \<open>maxLen\<close> and \<open>substrings\<close> among them.
\<close>

theorem deterministic_calls:
  "fst (generateProductCode_call ucd fr s) = fst (generateProductCode_call ucd fr' s)
   \<and> fst (generateProductCode_call ucd (snd (generateProductCode_call ucd fr s)) s)
       = fst (generateProductCode_call ucd fr s)"
  by (simp add: call_result)

text \<open>
  C8. For the descending input \<open>cba\<close> every run has length 1 (the inner loop stops
  where it starts, at each of the three indices), the three one-character runs tie for
  \<open>maxLen = 1\<close>, \<open>concat\<close> is \<open>cba\<close>, \<open>first\<close> and \<open>last\<close> are 0, and the result is the
  eight-character SHA-1 prefix of \<open>cba\<close> followed by \<open>-0cba0\<close>.
\<close>

theorem descending_cba:
  "run_end (js ''cba'') 0 = 0 \<and> run_end (js ''cba'') 1 = 1 \<and> run_end (js ''cba'') 2 = 2
   \<and> scan (toLowerCase ucd (js ''cba'')) =
     \<lparr>maxLen = 1,
      substrings = [\<lparr>str = js ''c'', start = 0\<rparr>, \<lparr>str = js ''b'', start = 1\<rparr>,
                    \<lparr>str = js ''a'', start = 2\<rparr>]\<rparr>
   \<and> concat (map str (substrings (scan (toLowerCase ucd (js ''cba''))))) = js ''cba''
   \<and> hash8 (js ''cba'') = js ''d9f0509f''
   \<and> generateProductCode ucd (js ''cba'') = Inr (js ''d9f0509f-0cba0'')"
proof -
  have "run_end (js ''cba'') 0 = 0 \<and> run_end (js ''cba'') 1 = 1 \<and> run_end (js ''cba'') 2 = 2"
    by (simp add: js_eval cu_def run_end.simps)
  moreover have "js ''c'' @ js ''b'' @ js ''a'' = js ''cba''" by (simp add: js_eval)
  ultimately show ?thesis
    unfolding lower_cba scan_cba by (simp add: hash8_cba code_cba)
qed

text \<open>
  C9. The result matches \<^verbatim>\<open>^[0-9a-f]{8}-\d+.*\d+$\<close> for every input
  whose lower-case form is non-empty and has no line terminator. Letters lower-case to
  letters and no letter is a line terminator, so this covers every non-empty alphabetic
  input, ASCII or not, whether or not it has an ascending pair of adjacent characters,
  and so in particular the alphabetic inputs that have one.
\<close>

theorem output_format:
  assumes "toLowerCase ucd productName \<noteq> []"
    and "list_all (\<lambda>c. \<not> is_line_terminator c) (toLowerCase ucd productName)"
  shows "\<exists>code. generateProductCode ucd productName = Inr code \<and> matches_format code"
proof -
  define lower where "lower = toLowerCase ucd productName"
  from assms(1) have "lower \<noteq> []" by (simp add: lower_def)
  then obtain r rs where tied: "tied_runs lower = r # rs"
    by (rule tied_runs_Cons)
  define d1 where "d1 = number_to_string (int (fst r))"
  define m where "m = concat (map (substring lower) (r # rs))"
  define d2 where "d2 = number_to_string (int (fst r) + int (run_length r) - 1)"
  have code: "generateProductCode ucd productName = Inr (hash8 productName @ js ''-'' @ d1 @ m @ d2)"
    unfolding d1_def m_def d2_def using tied
    by (intro generateProductCode_tied) (simp_all add: lower_def)
  have d1: "d1 \<noteq> []" "list_all is_digit d1"
    by (simp_all add: d1_def number_to_string_nat digits10_nonempty list_all_digits10)
  have "0 \<le> int (fst r) + int (run_length r) - 1"
    using run_length_pos [of r] by simp
  then have d2: "d2 \<noteq> []" "list_all is_digit d2"
    by (simp_all add: d2_def number_to_string_nat digits10_nonempty list_all_digits10)
  have no_lt: "\<not> is_line_terminator c" if "c \<in> set lower" for c
    using that assms(2) by (simp add: lower_def list_all_iff)
  have "set (substring lower x) \<subseteq> set lower" if "x \<in> set (r # rs)" for x
  proof -
    from that tied have "maximal_run lower (fst x) (snd x)"
      by (intro tied_runs_maximal) simp
    then have "snd x < length lower" by (simp add: maximal_run_def)
    then show ?thesis by (rule substring_subset)
  qed
  then have "set m \<subseteq> set lower" unfolding m_def by auto
  with no_lt have m: "list_all (\<lambda>c. \<not> is_line_terminator c) m"
    by (auto simp: list_all_iff)
  from d1 d2 m have "matches_tail (d1 @ m @ d2)" by (intro matches_tailI)
  then have "matches_format (hash8 productName @ js ''-'' @ d1 @ m @ d2)"
    by (intro matches_formatI length_hash8 list_all_hash8)
  with code show ?thesis by blast
qed

theorem output_format_witness:
  "toLowerCase (\<lambda>s. s) (js ''iphone'') \<noteq> []
   \<and> list_all (\<lambda>c. \<not> is_line_terminator c) (toLowerCase (\<lambda>s. s) (js ''iphone''))
   \<and> matches_format (js ''851aad63-0ipho1'')
   \<and> toLowerCase (\<lambda>s. [0xE9]) [0xC9] = [0xE9]
   \<and> list_all (\<lambda>c. \<not> is_line_terminator c) (toLowerCase (\<lambda>s. [0xE9]) [0xC9])
   \<and> (\<exists>code. generateProductCode (\<lambda>s. [0xE9]) [0xC9] = Inr code \<and> matches_format code)"
proof -
  have ne: "toLowerCase (\<lambda>s. s) (js ''iphone'') \<noteq> []"
    by (simp add: lower_eval)
  have no_lt: "list_all (\<lambda>c. \<not> is_line_terminator c) (toLowerCase (\<lambda>s. s) (js ''iphone''))"
    by (simp add: lower_eval is_line_terminator_def)
  from output_format [OF ne no_lt]
  have ascii: "matches_format (js ''851aad63-0ipho1'')"
    unfolding code_iphone by simp
  have lower: "toLowerCase (\<lambda>s. [0xE9]) [0xC9] = [0xE9]"
    by (simp add: toLowerCase_def is_ascii_def)
  have no_lt': "list_all (\<lambda>c. \<not> is_line_terminator c) (toLowerCase (\<lambda>s. [0xE9]) [0xC9])"
    unfolding lower by (simp add: is_line_terminator_def)
  have "\<exists>code. generateProductCode (\<lambda>s. [0xE9]) [0xC9] = Inr code \<and> matches_format code"
    by (rule output_format [OF _ no_lt']) (simp add: lower)
  with ne no_lt ascii lower no_lt' show ?thesis by simp
qed

text \<open>
  C10. For every non-empty input, with \<open>n\<close> the length of the lowercased input, the
  indices printed in the result satisfy \<open>0 \<le> first \<le> last \<le> n - 1\<close>, and the slice of
  the lowercased input from \<open>first\<close> to \<open>last\<close> inclusive is the substring of the first
  tied run, which is the first element of \<open>substrings\<close>.
\<close>

theorem index_bounds:
  assumes "productName \<noteq> []" and "keeps_nonempty ucd"
  shows "let lower = toLowerCase ucd productName;
             st = scan lower;
             first = int (start (hd (substrings st)));
             last = first + int (maxLen st) - 1
         in substrings st \<noteq> []
            \<and> 0 \<le> first \<and> first \<le> last \<and> last \<le> int (length lower) - 1
            \<and> hd (substrings st) = tied_record lower (hd (tied_runs lower))
            \<and> slice_str lower (nat first) (nat last + 1) = str (hd (substrings st))
            \<and> generateProductCode ucd productName =
                Inr (hash8 productName @ js ''-'' @ number_to_string first
                     @ concat (map str (substrings st)) @ number_to_string last)"
proof -
  define lower where "lower = toLowerCase ucd productName"
  from assms have "lower \<noteq> []" unfolding lower_def by (rule toLowerCase_nonempty)
  then obtain r rs where tied: "tied_runs lower = r # rs"
    by (rule tied_runs_Cons)
  have subs: "substrings (scan lower) = tied_record lower r # map (tied_record lower) rs"
    using tied by (simp add: scan_substrings)
  have len: "maxLen (scan lower) = run_length r"
    using tied_runs_maxLen [of r lower] tied by simp
  have "maximal_run lower (fst r) (snd r)"
    using tied_runs_maximal [of r lower] tied by simp
  then have bounds: "fst r \<le> snd r" "snd r < length lower"
    by (simp_all add: maximal_run_def)
  then have last: "int (fst r) + int (run_length r) - 1 = int (snd r)"
    by (simp add: run_length_def)
  have sl: "slice_str lower (fst r) (snd r + 1) = substring lower r"
    using bounds by (rule slice_substring)
  have joined: "concat (map str (substrings (scan lower))) = concat (map (substring lower) (r # rs))"
    using tied by (simp add: scan_substrings tied_record_def comp_def)
  have code: "generateProductCode ucd productName =
     Inr (hash8 productName @ js ''-'' @ number_to_string (int (fst r))
          @ concat (map (substring lower) (r # rs))
          @ number_to_string (int (fst r) + int (run_length r) - 1))"
    using tied by (intro generateProductCode_tied) (simp_all add: lower_def)
  show ?thesis
    unfolding Let_def lower_def [symmetric] joined
    using bounds sl code
    by (simp add: subs len last tied tied_record_def)
qed

theorem index_bounds_witness:
  "js ''azAZ'' \<noteq> [] \<and> keeps_nonempty (\<lambda>s. s)
   \<and> slice_str (toLowerCase (\<lambda>s. s) (js ''azAZ'')) 0 2 = js ''az''
   \<and> tied_record (toLowerCase (\<lambda>s. s) (js ''azAZ'')) (hd (tied_runs (toLowerCase (\<lambda>s. s) (js ''azAZ''))))
       = \<lparr>str = js ''az'', start = 0\<rparr>"
proof -
  have ne: "js ''azAZ'' \<noteq> []" by (simp add: js_eval)
  have keeps: "keeps_nonempty (\<lambda>s. s)" by (simp add: keeps_nonempty_def)
  have lower: "toLowerCase (\<lambda>s. s) (js ''azAZ'') = [97, 122, 97, 122]"
    by (simp add: lower_eval)
  have st: "scan [97, 122, 97, 122] =
      \<lparr>maxLen = 2, substrings = [\<lparr>str = js ''az'', start = 0\<rparr>, \<lparr>str = js ''az'', start = 2\<rparr>]\<rparr>"
    by (simp add: js_eval cu_def scan_eval)
  from index_bounds [OF ne keeps]
  have "slice_str [97, 122, 97, 122] 0 2 = js ''az''
      \<and> tied_record [97, 122, 97, 122] (hd (tied_runs [97, 122, 97, 122])) = \<lparr>str = js ''az'', start = 0\<rparr>"
    unfolding Let_def lower st by (simp add: numeral_2_eq_2)
  with ne keeps show ?thesis unfolding lower by simp
qed

end
